theory Spec2Isabelle
  imports Complex_Main "HOL-Library.Word" "HOL-Library.AList"
begin

section \<open>The consistent-hash ring of \<open>ring/ring.go\<close>\<close>

subsection \<open>Data model\<close>

text \<open>\<open>Operation\<close> can be \<open>Read\<close> or \<open>Write\<close> (ring.go, lines 21-28).\<close>

datatype Operation = Read | Write

text \<open>
  Modelled from the spec: the declarations of \<open>Desc\<close>, \<open>TokenDesc\<close>, \<open>IngesterDesc\<close> and of
  the state constant \<open>Leaving\<close> are not part of ring.go. The field names \<open>Tokens\<close>,
  \<open>Ingesters\<close>, \<open>Token\<close>, \<open>Ingester\<close>, \<open>State\<close> and \<open>Timestamp\<close> are the ones ring.go
  reads; the remaining fields follow the spec's data model (a token is a 32-bit hash, an
  owning node identifier and a lifecycle state among Active, Leaving and others; a node
  carries an identifier, an opaque address and its last heartbeat).
\<close>

datatype TokenState = Active | Leaving | OtherState nat

record TokenDesc =
  Token :: "32 word"
  Ingester :: string
  State :: TokenState

record IngesterDesc =
  node_id :: string
  address :: string
  Timestamp :: int

record Desc =
  Ingesters :: "string \<rightharpoonup> IngesterDesc"
  Tokens :: "TokenDesc list"

text \<open>The fields of \<open>Ring\<close> that the modelled operations read or write.\<close>

record Ring =
  ringDesc :: Desc
  heartbeatTimeout :: int

text \<open>
  \<open>ErrEmptyRing\<close> is the one error value ring.go returns. The other constructors are the
  run-time failures of the modelled statements: \<open>make\<close> with a capacity it does not accept,
  a failed type assertion and the dereference of a nil pointer.
\<close>

datatype error = ErrEmptyRing | PanicMakeslice | PanicTypeAssertion | PanicNilDereference

text \<open>
  Indexing a Go map with an absent key yields the zero value of the element type
  (\<open>r.ringDesc.Ingesters[token.Ingester]\<close>, line 164).
\<close>

definition IngesterDesc_zero :: IngesterDesc where
  "IngesterDesc_zero = \<lparr>node_id = [], address = [], Timestamp = 0\<rparr>"

definition Ingesters_index :: "(string \<rightharpoonup> IngesterDesc) \<Rightarrow> string \<Rightarrow> IngesterDesc" where
  "Ingesters_index m k = (case m k of None \<Rightarrow> IngesterDesc_zero | Some v \<Rightarrow> v)"

subsection \<open>The watch callback of \<open>loop\<close> (lines 92-106)\<close>

text \<open>
  The callback receives an \<open>interface{}\<close>: the nil interface, a \<open>*Desc\<close> (which may itself
  be a nil pointer), or a value of some other dynamic type.
\<close>

datatype watch_value = NilValue | DescPointer "Desc option" | OtherValue

definition loop_callback :: "Ring \<Rightarrow> watch_value \<Rightarrow> error + (Ring \<times> bool)" where
  "loop_callback r v =
     (case v of
        NilValue \<Rightarrow> Inr (r, True)
      | OtherValue \<Rightarrow> Inl PanicTypeAssertion
      | DescPointer None \<Rightarrow> Inl PanicNilDereference
      | DescPointer (Some d) \<Rightarrow> Inr (r\<lparr>ringDesc := d\<rparr>, True))"

subsection \<open>\<open>search\<close> (lines 185-193)\<close>

text \<open>
  \<open>sort.Search n f\<close> of the Go standard library: binary search on \<open>[0, n)\<close> with
  \<open>i, j := 0, n\<close>, the midpoint \<open>h\<close> of \<open>i\<close> and \<open>j\<close>, \<open>i = h + 1\<close> when \<open>f h\<close> is false and
  \<open>j = h\<close> otherwise, returning \<open>i\<close> once \<open>i < j\<close> fails.
\<close>

function sort_Search_loop :: "(nat \<Rightarrow> bool) \<Rightarrow> nat \<Rightarrow> nat \<Rightarrow> nat" where
  "sort_Search_loop f i j =
     (if i < j then
        (if \<not> f ((i + j) div 2) then sort_Search_loop f ((i + j) div 2 + 1) j
         else sort_Search_loop f i ((i + j) div 2))
      else i)"
  by pat_completeness auto
termination
  by (relation "measure (\<lambda>(f, i, j). j - i)") auto

definition sort_Search :: "nat \<Rightarrow> (nat \<Rightarrow> bool) \<Rightarrow> nat" where
  "sort_Search n f = sort_Search_loop f 0 n"

definition search :: "Ring \<Rightarrow> 32 word \<Rightarrow> nat" where
  "search r key =
     (let i = sort_Search (length (Tokens (ringDesc r)))
                (\<lambda>x. Token (Tokens (ringDesc r) ! x) > key)
      in if i \<ge> length (Tokens (ringDesc r)) then 0 else i)"

subsection \<open>\<open>getInternal\<close> (lines 132-168)\<close>

text \<open>
  The local variables of the resolution loop: the result slice, the set of hosts seen, the
  target count \<open>n\<close> (a Go \<open>int\<close>, raised while walking), the iteration counter and the
  index \<open>i\<close>.
\<close>

record walk_vars =
  ingesters :: "IngesterDesc list"
  distinctHosts :: "string set"
  n_var :: int
  iterations :: nat
  i_var :: nat

text \<open>The loop condition \<open>len(distinctHosts) < n && iterations < len(r.ringDesc.Tokens)\<close>.\<close>

definition loop_cond :: "Ring \<Rightarrow> walk_vars \<Rightarrow> bool" where
  "loop_cond r s \<longleftrightarrow>
     int (card (distinctHosts s)) < n_var s \<and> iterations s < length (Tokens (ringDesc r))"

text \<open>
  One pass through the loop body followed by the post statement \<open>i++\<close>, which every
  \<open>continue\<close> reaches as well. The index read is \<open>i % len(Tokens)\<close>, in range whenever the
  loop condition holds.
\<close>

definition loop_body :: "Ring \<Rightarrow> Operation \<Rightarrow> walk_vars \<Rightarrow> walk_vars" where
  "loop_body r op s =
     (let s1 = s\<lparr>iterations := iterations s + 1,
                 i_var := i_var s mod length (Tokens (ringDesc r))\<rparr>;
          token = Tokens (ringDesc r) ! i_var s1
      in if Ingester token \<in> distinctHosts s1 then s1\<lparr>i_var := i_var s1 + 1\<rparr>
         else
           let s2 = s1\<lparr>distinctHosts := insert (Ingester token) (distinctHosts s1)\<rparr>;
               s3 = (if State token = Leaving then s2\<lparr>n_var := n_var s2 + 1\<rparr> else s2)
           in if State token = Leaving \<and> op = Write then s3\<lparr>i_var := i_var s3 + 1\<rparr>
              else s3\<lparr>ingesters := ingesters s3 @
                          [Ingesters_index (Ingesters (ringDesc r)) (Ingester token)],
                      i_var := i_var s3 + 1\<rparr>)"

function walk_loop :: "Ring \<Rightarrow> Operation \<Rightarrow> walk_vars \<Rightarrow> walk_vars" where
  "walk_loop r op s = (if loop_cond r s then walk_loop r op (loop_body r op s) else s)"
  by pat_completeness auto
termination
  by (relation "measure (\<lambda>(r, op, s). length (Tokens (ringDesc r)) - iterations s)")
     (auto simp: loop_cond_def loop_body_def Let_def)

text \<open>The variables as the loop is entered, and as it is left.\<close>

definition walk_init :: "Ring \<Rightarrow> 32 word \<Rightarrow> int \<Rightarrow> walk_vars" where
  "walk_init r key n =
     \<lparr>ingesters = [], distinctHosts = {}, n_var = n, iterations = 0, i_var = search r key\<rparr>"

definition walk :: "Ring \<Rightarrow> 32 word \<Rightarrow> int \<Rightarrow> Operation \<Rightarrow> walk_vars" where
  "walk r key n op = walk_loop r op (walk_init r key n)"

text \<open>
  \<open>getInternal\<close>: the empty ring is an error; then \<open>make([]IngesterDesc, 0, n)\<close> fails when
  \<open>n\<close> is negative or larger than the greatest capacity the run-time provides for a slice
  of \<open>IngesterDesc\<close> (the panic \<open>makeslice: cap out of range\<close>, or the abort for want of
  memory). That bound depends on the platform and on the size of \<open>IngesterDesc\<close>, whose
  declaration is not part of ring.go; it is the parameter \<open>cap_limit\<close>. Otherwise the walk's
  result slice is returned. The locks are not part of this sequential model. When a read
  meets Leaving tokens the result can outgrow \<open>n\<close> by at most the number of tokens, and
  \<open>append\<close> then reallocates; that reallocation is taken to succeed. \<open>n\<close> is an unbounded
  integer: the walk adds at most \<open>len(Tokens)\<close> to a capacity that \<open>make\<close> has accepted, which
  stays inside the range of \<open>int\<close>.
\<close>

definition getInternal ::
  "int \<Rightarrow> Ring \<Rightarrow> 32 word \<Rightarrow> int \<Rightarrow> Operation \<Rightarrow> error + IngesterDesc list" where
  "getInternal cap_limit r key n op =
     (if length (Tokens (ringDesc r)) = 0 then Inl ErrEmptyRing
      else if n < 0 \<or> cap_limit < n then Inl PanicMakeslice
      else Inr (ingesters (walk r key n op)))"

subsection \<open>\<open>Get\<close> and \<open>BatchGet\<close> (lines 108-130)\<close>

definition Get ::
  "int \<Rightarrow> Ring \<Rightarrow> 32 word \<Rightarrow> int \<Rightarrow> Operation \<Rightarrow> error + IngesterDesc list" where
  "Get cap_limit r key n op = getInternal cap_limit r key n op"

text \<open>
  The loop \<open>for i, key := range keys\<close> over the preallocated \<open>result\<close>: the first failing key
  ends the call with its error and without a result.
\<close>

fun BatchGet_loop ::
  "int \<Rightarrow> Ring \<Rightarrow> int \<Rightarrow> Operation \<Rightarrow> nat \<Rightarrow> 32 word list \<Rightarrow> IngesterDesc list list
     \<Rightarrow> error + IngesterDesc list list" where
  "BatchGet_loop cap_limit r n op i [] result = Inr result"
| "BatchGet_loop cap_limit r n op i (key # keys) result =
     (case getInternal cap_limit r key n op of
        Inl err \<Rightarrow> Inl err
      | Inr ings \<Rightarrow> BatchGet_loop cap_limit r n op (i + 1) keys (result[i := ings]))"

definition BatchGet ::
  "int \<Rightarrow> Ring \<Rightarrow> 32 word list \<Rightarrow> int \<Rightarrow> Operation \<Rightarrow> error + IngesterDesc list list" where
  "BatchGet cap_limit r keys n op =
     BatchGet_loop cap_limit r n op 0 keys (replicate (length keys) [])"

subsection \<open>The ownership totals of \<open>Collect\<close> (lines 207-225)\<close>

text \<open>
  The segment of token \<open>i\<close>, in \<open>uint32\<close> arithmetic: up to the next token, and for the
  last token up to \<open>math.MaxUint32\<close> plus the first token's hash.
\<close>

definition Collect_diff :: "TokenDesc list \<Rightarrow> nat \<Rightarrow> 32 word" where
  "Collect_diff ts i =
     (if i + 1 = length ts then (- 1 - Token (ts ! i)) + Token (ts ! 0)
      else Token (ts ! (i + 1)) - Token (ts ! i))"

text \<open>
  The map \<open>owned\<close> is kept as an association list with one entry per key; reading an
  absent key gives 0, as the Go map does.
\<close>

definition owned_index :: "(string \<times> 32 word) list \<Rightarrow> string \<Rightarrow> 32 word" where
  "owned_index owned k = (case map_of owned k of None \<Rightarrow> 0 | Some v \<Rightarrow> v)"

definition Collect_step :: "TokenDesc list \<Rightarrow> (string \<times> 32 word) list \<Rightarrow> nat
    \<Rightarrow> (string \<times> 32 word) list" where
  "Collect_step ts owned i =
     AList.update (Ingester (ts ! i)) (owned_index owned (Ingester (ts ! i)) + Collect_diff ts i)
       owned"

definition Collect_owned :: "Ring \<Rightarrow> (string \<times> 32 word) list" where
  "Collect_owned r =
     foldl (Collect_step (Tokens (ringDesc r))) [] [0..<length (Tokens (ringDesc r))]"

text \<open>
  The \<open>float64\<close> quotient of two natural numbers below \<open>2^53\<close>, the divisor positive, as
  the real number it denotes. Both conversions to \<open>float64\<close> are exact there, and the
  division is the
  IEEE 754 one: the exact quotient rounded to 53 significant bits, to nearest, ties to
  even. \<open>float64_shift a b 0\<close> is the least \<open>k\<close> that brings \<open>a * 2^k / b\<close> up to \<open>2^52\<close>, so
  that its integral part has 53 bits; the quotients formed by \<open>Collect\<close> are at most 1 and,
  unless 0, at least \<open>1 / (2^32 - 1)\<close>, in the range of normal numbers.
\<close>

function float64_shift :: "nat \<Rightarrow> nat \<Rightarrow> nat \<Rightarrow> nat" where
  "float64_shift a b k =
     (if a = 0 \<or> 2 ^ 52 * b \<le> a * 2 ^ k then k else float64_shift a b (k + 1))"
  by pat_completeness auto
termination
proof (relation "measure (\<lambda>(a, b, k). 2 ^ 52 * b - a * 2 ^ k)")
  show "wf (measure (\<lambda>(a, b, k). 2 ^ 52 * b - a * 2 ^ k))" by simp
next
  fix a b k :: nat
  assume "\<not> (a = 0 \<or> 2 ^ 52 * b \<le> a * 2 ^ k)"
  then have "0 < a * 2 ^ k" and "a * 2 ^ k < 2 ^ 52 * b" by simp_all
  moreover have "a * 2 ^ (k + 1) = 2 * (a * 2 ^ k)" by simp
  ultimately have "2 ^ 52 * b - a * 2 ^ (k + 1) < 2 ^ 52 * b - a * 2 ^ k" by linarith
  then show "((a, b, k + 1), (a, b, k)) \<in> measure (\<lambda>(a, b, k). 2 ^ 52 * b - a * 2 ^ k)"
    by simp
qed

definition round_half_even :: "nat \<Rightarrow> nat \<Rightarrow> nat" where
  "round_half_even x b =
     (let q = x div b; r = x mod b
      in if 2 * r < b then q
         else if b < 2 * r then q + 1
         else if even q then q else q + 1)"

definition float64_div :: "nat \<Rightarrow> nat \<Rightarrow> real" where
  "float64_div a b =
     (if a = 0 then 0
      else let k = float64_shift a b 0
           in real (round_half_even (a * 2 ^ k) b) / 2 ^ k)"

text \<open>
  The gauge values \<open>float64(totalOwned)/float64(math.MaxUint32)\<close>, one per key of \<open>owned\<close>.
\<close>

definition Collect_ownership :: "Ring \<Rightarrow> (string \<times> real) list" where
  "Collect_ownership r =
     map (\<lambda>(id, totalOwned). (id, float64_div (unat totalOwned) (unat (- 1 :: 32 word))))
       (Collect_owned r)"

text \<open>
  The ownership of the hash space in the spec's words: the segment of token \<open>i\<close> is the
  distance to the next token, the last segment wrapping through the maximum hash back to
  the first token; a node's share is the sum of the segments of its tokens.
\<close>

definition segment_size :: "TokenDesc list \<Rightarrow> nat \<Rightarrow> nat" where
  "segment_size ts i =
     (if i + 1 = length ts then (4294967295 - unat (Token (ts ! i))) + unat (Token (ts ! 0))
      else unat (Token (ts ! (i + 1))) - unat (Token (ts ! i)))"

definition node_segments :: "TokenDesc list \<Rightarrow> string \<Rightarrow> nat" where
  "node_segments ts h =
     sum_list (map (segment_size ts) (filter (\<lambda>i. Ingester (ts ! i) = h) [0..<length ts]))"

text \<open>The sum of the totals held in \<open>owned\<close>, read as natural numbers.\<close>

definition owned_total :: "(string \<times> 32 word) list \<Rightarrow> nat" where
  "owned_total owned = sum_list (map (\<lambda>p. unat (snd p)) owned)"

text \<open>
  The part of a node's total that comes from the first \<open>k\<close> tokens, read as a natural
  number.
\<close>

definition part_sum :: "TokenDesc list \<Rightarrow> string \<Rightarrow> nat \<Rightarrow> nat" where
  "part_sum ts h k =
     sum_list (map (\<lambda>i. unat (Collect_diff ts i)) (filter (\<lambda>i. Ingester (ts ! i) = h) [0..<k]))"

subsection \<open>Describing a walk\<close>

text \<open>
  The tokens read by the first \<open>k\<close> iterations of a walk for \<open>key\<close>: clockwise from the
  start index, wrapping around.
\<close>

definition visited :: "Ring \<Rightarrow> 32 word \<Rightarrow> nat \<Rightarrow> TokenDesc list" where
  "visited r key k =
     map (\<lambda>j. Tokens (ringDesc r) ! ((search r key + j) mod length (Tokens (ringDesc r))))
       [0..<k]"

text \<open>The tokens of a sequence whose node occurs at no earlier position of it.\<close>

definition first_seen :: "TokenDesc list \<Rightarrow> TokenDesc list" where
  "first_seen vs =
     map (\<lambda>j. vs ! j)
       (filter (\<lambda>j. Ingester (vs ! j) \<notin> Ingester ` set (take j vs)) [0..<length vs])"

definition is_Leaving :: "TokenDesc \<Rightarrow> bool" where
  "is_Leaving t \<longleftrightarrow> State t = Leaving"

text \<open>The tokens a whole walk reads, and how many of them are Leaving.\<close>

definition visited_tokens :: "Ring \<Rightarrow> 32 word \<Rightarrow> int \<Rightarrow> Operation \<Rightarrow> TokenDesc list" where
  "visited_tokens r key n op = visited r key (iterations (walk r key n op))"

definition leaving_encountered :: "Ring \<Rightarrow> 32 word \<Rightarrow> int \<Rightarrow> Operation \<Rightarrow> nat" where
  "leaving_encountered r key n op = length (filter is_Leaving (visited_tokens r key n op))"

text \<open>
  The node identifiers a walk resolves: the node of every token read whose node was not
  seen before, except, for a write, those whose token is Leaving.
\<close>

definition selected_hosts :: "Operation \<Rightarrow> TokenDesc list \<Rightarrow> string list" where
  "selected_hosts op vs =
     map Ingester (filter (\<lambda>t. \<not> (is_Leaving t \<and> op = Write)) (first_seen vs))"

definition walk_hosts :: "Ring \<Rightarrow> 32 word \<Rightarrow> int \<Rightarrow> Operation \<Rightarrow> string list" where
  "walk_hosts r key n op = selected_hosts op (visited_tokens r key n op)"

text \<open>
  The data model's invariant on a descriptor: the node of every token is a key of the node
  map, and its entry carries that identifier.
\<close>

definition every_token_node_known :: "Ring \<Rightarrow> bool" where
  "every_token_node_known r \<longleftrightarrow>
     (\<forall>t \<in> set (Tokens (ringDesc r)).
        map_option node_id (Ingesters (ringDesc r) (Ingester t)) = Some (Ingester t))"

text \<open>
  What the loop maintains, in terms of the tokens read so far: the index follows the
  clockwise order, the hosts seen are the nodes of the tokens read, the target has grown by
  one for every Leaving token whose node had not been seen before, and the result holds the
  node-map entries of the selected hosts.
\<close>

definition walk_inv :: "Ring \<Rightarrow> 32 word \<Rightarrow> int \<Rightarrow> Operation \<Rightarrow> walk_vars \<Rightarrow> bool" where
  "walk_inv r key n op s \<longleftrightarrow>
     i_var s mod length (Tokens (ringDesc r)) =
       (search r key + iterations s) mod length (Tokens (ringDesc r))
     \<and> distinctHosts s = Ingester ` set (visited r key (iterations s))
     \<and> n_var s = n + int (length (filter is_Leaving (first_seen (visited r key (iterations s)))))
     \<and> ingesters s = map (Ingesters_index (Ingesters (ringDesc r)))
                        (selected_hosts op (visited r key (iterations s)))"

text \<open>Two states of the loop that agree on everything but the result slice.\<close>

definition same_control :: "walk_vars \<Rightarrow> walk_vars \<Rightarrow> bool" where
  "same_control s s' \<longleftrightarrow>
     distinctHosts s = distinctHosts s' \<and> n_var s = n_var s'
     \<and> iterations s = iterations s' \<and> i_var s = i_var s'"

subsection \<open>Example descriptors\<close>

definition node_A :: IngesterDesc where
  "node_A = \<lparr>node_id = ''A'', address = ''10.0.0.1:9095'', Timestamp = 100\<rparr>"

definition node_B :: IngesterDesc where
  "node_B = \<lparr>node_id = ''B'', address = ''10.0.0.2:9095'', Timestamp = 101\<rparr>"

definition node_C :: IngesterDesc where
  "node_C = \<lparr>node_id = ''C'', address = ''10.0.0.3:9095'', Timestamp = 102\<rparr>"

definition nodes_ABC :: "string \<rightharpoonup> IngesterDesc" where
  "nodes_ABC = [''A'' \<mapsto> node_A, ''B'' \<mapsto> node_B, ''C'' \<mapsto> node_C]"

text \<open>No tokens at all.\<close>

definition ring_empty :: Ring where
  "ring_empty = \<lparr>ringDesc = \<lparr>Ingesters = Map.empty, Tokens = []\<rparr>, heartbeatTimeout = 60\<rparr>"

text \<open>The ring of the spec's scenario: tokens 10 (A), 20 (B, Leaving), 30 (C).\<close>

definition scenario_tokens :: "TokenDesc list" where
  "scenario_tokens =
     [\<lparr>Token = 10, Ingester = ''A'', State = Active\<rparr>,
      \<lparr>Token = 20, Ingester = ''B'', State = Leaving\<rparr>,
      \<lparr>Token = 30, Ingester = ''C'', State = Active\<rparr>]"

definition ring_scenario :: Ring where
  "ring_scenario =
     \<lparr>ringDesc = \<lparr>Ingesters = nodes_ABC, Tokens = scenario_tokens\<rparr>, heartbeatTimeout = 60\<rparr>"

text \<open>A leaving node A that owns two tokens, followed by B.\<close>

definition ring_AAB :: Ring where
  "ring_AAB =
     \<lparr>ringDesc = \<lparr>Ingesters = nodes_ABC,
        Tokens = [\<lparr>Token = 10, Ingester = ''A'', State = Leaving\<rparr>,
                  \<lparr>Token = 20, Ingester = ''A'', State = Leaving\<rparr>,
                  \<lparr>Token = 30, Ingester = ''B'', State = Active\<rparr>]\<rparr>,
      heartbeatTimeout = 60\<rparr>"

text \<open>A token of a node X that the node map does not know, followed by a token of A.\<close>

definition ring_orphan :: Ring where
  "ring_orphan =
     \<lparr>ringDesc = \<lparr>Ingesters = [''A'' \<mapsto> node_A],
        Tokens = [\<lparr>Token = 10, Ingester = ''X'', State = Active\<rparr>,
                  \<lparr>Token = 20, Ingester = ''A'', State = Active\<rparr>]\<rparr>,
      heartbeatTimeout = 60\<rparr>"

text \<open>Node A owns the first and the last of three tokens, node B the middle one.\<close>

definition ring_two_nodes :: Ring where
  "ring_two_nodes =
     \<lparr>ringDesc = \<lparr>Ingesters = nodes_ABC,
        Tokens = [\<lparr>Token = 1000, Ingester = ''A'', State = Active\<rparr>,
                  \<lparr>Token = 2000000000, Ingester = ''B'', State = Active\<rparr>,
                  \<lparr>Token = 4000000000, Ingester = ''A'', State = Active\<rparr>]\<rparr>,
      heartbeatTimeout = 60\<rparr>"

text \<open>Two tokens whose nodes X and Y the node map does not know.\<close>

definition ring_XY :: Ring where
  "ring_XY =
     \<lparr>ringDesc = \<lparr>Ingesters = Map.empty,
        Tokens = [\<lparr>Token = 10, Ingester = ''X'', State = Active\<rparr>,
                  \<lparr>Token = 20, Ingester = ''Y'', State = Active\<rparr>]\<rparr>,
      heartbeatTimeout = 60\<rparr>"

text \<open>Two tokens, 10 of A and 20 of B.\<close>

definition ring_AB :: Ring where
  "ring_AB =
     \<lparr>ringDesc = \<lparr>Ingesters = nodes_ABC,
        Tokens = [\<lparr>Token = 10, Ingester = ''A'', State = Active\<rparr>,
                  \<lparr>Token = 20, Ingester = ''B'', State = Active\<rparr>]\<rparr>,
      heartbeatTimeout = 60\<rparr>"

text \<open>A capacity bound for the examples: \<open>2^48\<close> bytes of entries of 64 bytes.\<close>

definition example_cap_limit :: int where
  "example_cap_limit = 4398046511104"

declare sort_Search_loop.simps [simp del]
declare float64_shift.simps [simp del]
declare walk_loop.simps [simp del]

section \<open>Properties\<close>

subsection \<open>The walk and its invariant\<close>

lemma iterations_loop_body [simp]: "iterations (loop_body r op s) = iterations s + 1"
  by (simp add: loop_body_def Let_def)

lemma walk_loop_invariant:
  "P s \<Longrightarrow> (\<And>s. P s \<Longrightarrow> loop_cond r s \<Longrightarrow> P (loop_body r op s))
     \<Longrightarrow> P (walk_loop r op s)"
proof (induction r op s rule: walk_loop.induct)
  case (1 r op s)
  show ?case
  proof (cases "loop_cond r s")
    case True
    from "1.prems"(1) True have "P (loop_body r op s)" by (rule "1.prems"(2))
    with True have "P (walk_loop r op (loop_body r op s))"
      using "1.prems"(2) by (rule "1.IH")
    with True show ?thesis by (simp add: walk_loop.simps [of r op s])
  next
    case False
    with "1.prems"(1) show ?thesis by (simp add: walk_loop.simps [of r op s])
  qed
qed

lemma first_seen_Nil [simp]: "first_seen [] = []"
  by (simp add: first_seen_def)

lemma first_seen_snoc:
  "first_seen (vs @ [t]) =
     first_seen vs @ (if Ingester t \<in> Ingester ` set vs then [] else [t])"
proof -
  have a: "filter (\<lambda>j. Ingester ((vs @ [t]) ! j) \<notin> Ingester ` set (take j (vs @ [t]))) [0..<length vs]
        = filter (\<lambda>j. Ingester (vs ! j) \<notin> Ingester ` set (take j vs)) [0..<length vs]"
    by (rule filter_cong) (auto simp: nth_append)
  have b: "map (\<lambda>j. (vs @ [t]) ! j) (filter (\<lambda>j. Ingester (vs ! j) \<notin> Ingester ` set (take j vs)) [0..<length vs])
        = map (\<lambda>j. vs ! j) (filter (\<lambda>j. Ingester (vs ! j) \<notin> Ingester ` set (take j vs)) [0..<length vs])"
    by (rule map_cong) (simp_all add: nth_append)
  have len: "[0..<length (vs @ [t])] = [0..<length vs] @ [length vs]" by simp
  show ?thesis
    unfolding first_seen_def len filter_append map_append a b by simp
qed

lemma visited_0 [simp]: "visited r key 0 = []"
  by (simp add: visited_def)

lemma visited_Suc:
  "visited r key (Suc k) = visited r key k @
     [Tokens (ringDesc r) ! ((search r key + k) mod length (Tokens (ringDesc r)))]"
  by (simp add: visited_def)

lemma length_visited [simp]: "length (visited r key k) = k"
  by (simp add: visited_def)

lemma set_first_seen: "Ingester ` set (first_seen vs) = Ingester ` set vs"
  by (induction vs rule: rev_induct) (auto simp: first_seen_snoc)

lemma distinct_first_seen: "distinct (map Ingester (first_seen vs))"
  by (induction vs rule: rev_induct) (auto simp: first_seen_snoc set_first_seen)

lemma filter_first_seen_le: "length (filter P (first_seen vs)) \<le> length (filter P vs)"
  by (induction vs rule: rev_induct) (auto simp: first_seen_snoc)

lemma walk_inv_init: "walk_inv r key n op (walk_init r key n)"
  by (simp add: walk_inv_def walk_init_def selected_hosts_def)

lemma walk_inv_body:
  assumes "walk_inv r key n op s" and "loop_cond r s"
  shows "walk_inv r key n op (loop_body r op s)"
proof -
  let ?T = "Tokens (ringDesc r)"
  let ?k = "iterations s"
  let ?t = "?T ! ((search r key + ?k) mod length ?T)"
  from assms(2) have len: "0 < length ?T" by (auto simp: loop_cond_def)
  have i: "i_var s mod length ?T = (search r key + ?k) mod length ?T"
    using assms(1) by (simp add: walk_inv_def)
  have nxt: "(i_var s mod length ?T + 1) mod length ?T = (search r key + (?k + 1)) mod length ?T"
    using i by (metis add.assoc mod_add_left_eq)
  show ?thesis
    using assms(1) i nxt
    by (auto simp: walk_inv_def loop_body_def Let_def visited_Suc first_seen_snoc
        selected_hosts_def is_Leaving_def)
qed

lemma walk_inv_walk: "walk_inv r key n op (walk r key n op)"
  unfolding walk_def
  by (rule walk_loop_invariant [where P = "walk_inv r key n op"])
     (auto intro: walk_inv_init walk_inv_body)

lemma set_first_seen_subset: "set (first_seen vs) \<subseteq> set vs"
  by (induction vs rule: rev_induct) (auto simp: first_seen_snoc)

lemma first_seen_Leaving_le_card:
  "length (filter P (first_seen vs)) \<le> card (Ingester ` set (filter P vs))"
proof -
  have d: "distinct (map Ingester (filter P (first_seen vs)))"
    using distinct_first_seen [of vs] by (rule distinct_map_filter)
  have "length (filter P (first_seen vs)) = card (set (map Ingester (filter P (first_seen vs))))"
    using distinct_card [OF d] by simp
  also have "\<dots> \<le> card (Ingester ` set (filter P vs))"
    using set_first_seen_subset [of vs] by (intro card_mono) auto
  finally show ?thesis .
qed

lemma visited_subset:
  assumes "Tokens (ringDesc r) \<noteq> []"
  shows "set (visited r key k) \<subseteq> set (Tokens (ringDesc r))"
  using assms by (auto simp: visited_def)

lemma getInternal_hosts:
  assumes "Tokens (ringDesc r) \<noteq> []" and "0 \<le> n" and "n \<le> cap_limit"
  shows "getInternal cap_limit r key n op =
           Inr (map (Ingesters_index (Ingesters (ringDesc r))) (walk_hosts r key n op))"
  using assms walk_inv_walk [of r key n op]
  by (simp add: getInternal_def walk_inv_def walk_hosts_def visited_tokens_def)

text \<open>The node map has no influence on the control flow of the walk.\<close>

lemma loop_body_same_control:
  assumes "Tokens (ringDesc r') = Tokens (ringDesc r)" and "same_control s s'"
  shows "same_control (loop_body r op s) (loop_body r' op s')"
  using assms by (simp add: loop_body_def same_control_def Let_def)

lemma walk_loop_same_control:
  "Tokens (ringDesc r') = Tokens (ringDesc r) \<Longrightarrow> same_control s s'
     \<Longrightarrow> same_control (walk_loop r op s) (walk_loop r' op s')"
proof (induction r op s arbitrary: s' rule: walk_loop.induct)
  case (1 r op s)
  have cond: "loop_cond r' s' = loop_cond r s"
    using "1.prems" by (simp add: loop_cond_def same_control_def)
  show ?case
  proof (cases "loop_cond r s")
    case True
    have "same_control (walk_loop r op (loop_body r op s)) (walk_loop r' op (loop_body r' op s'))"
      using True "1.prems"(1) loop_body_same_control [OF "1.prems"] by (rule "1.IH")
    with True cond show ?thesis
      by (simp add: walk_loop.simps [of r op s] walk_loop.simps [of r' op s'])
  next
    case False
    with cond "1.prems"(2) show ?thesis
      by (simp add: walk_loop.simps [of r op s] walk_loop.simps [of r' op s'])
  qed
qed

lemma search_Tokens_cong:
  "Tokens (ringDesc r') = Tokens (ringDesc r) \<Longrightarrow> search r' key = search r key"
  by (simp add: search_def)

lemma walk_hosts_Tokens_cong:
  assumes "Tokens (ringDesc r') = Tokens (ringDesc r)"
  shows "walk_hosts r' key n op = walk_hosts r key n op"
proof -
  have "same_control (walk_init r key n) (walk_init r' key n)"
    by (simp add: same_control_def walk_init_def search_Tokens_cong [OF assms])
  with assms have "same_control (walk r key n op) (walk r' key n op)"
    unfolding walk_def by (rule walk_loop_same_control)
  then have "iterations (walk r' key n op) = iterations (walk r key n op)"
    by (simp add: same_control_def)
  with assms show ?thesis
    by (simp add: walk_hosts_def visited_tokens_def visited_def search_Tokens_cong [OF assms])
qed

lemma card_inv:
  assumes "0 \<le> n"
  shows "int (card (distinctHosts (walk r key n op))) \<le> n_var (walk r key n op)"
  unfolding walk_def
proof (rule walk_loop_invariant
    [where P = "\<lambda>s. finite (distinctHosts s) \<and> int (card (distinctHosts s)) \<le> n_var s",
      THEN conjunct2])
  show "finite (distinctHosts (walk_init r key n)) \<and>
    int (card (distinctHosts (walk_init r key n))) \<le> n_var (walk_init r key n)"
    using assms by (simp add: walk_init_def)
next
  fix s
  assume "finite (distinctHosts s) \<and> int (card (distinctHosts s)) \<le> n_var s"
    and "loop_cond r s"
  then show "finite (distinctHosts (loop_body r op s)) \<and>
    int (card (distinctHosts (loop_body r op s))) \<le> n_var (loop_body r op s)"
    by (auto simp: loop_body_def loop_cond_def Let_def)
qed

lemma selected_hosts_Read: "selected_hosts Read vs = map Ingester (first_seen vs)"
  by (simp add: selected_hosts_def)

lemma distinct_selected_hosts: "distinct (selected_hosts op vs)"
  unfolding selected_hosts_def using distinct_first_seen [of vs] by (rule distinct_map_filter)

lemma set_selected_hosts: "set (selected_hosts op vs) \<subseteq> Ingester ` set vs"
  using set_first_seen_subset [of vs] by (auto simp: selected_hosts_def)

lemmas eval_defs =
  Get_def getInternal_def walk_def walk_init_def walk_loop.simps loop_cond_def loop_body_def
  example_cap_limit_def
  search_def sort_Search_def sort_Search_loop.simps Let_def Ingesters_index_def

subsection \<open>Resolution\<close>

text \<open>
  C1, as amended: where \<open>make\<close> provides a capacity of one entry, on every ring with the
  scenario's tokens \<open>(10, A, Active)\<close>,
  \<open>(20, B, Leaving)\<close>, \<open>(30, C, Active)\<close> whose node map knows A and C, \<open>Get 5 1 Write\<close>
  returns exactly A's entry, and \<open>Get 15 1 Write\<close> returns exactly C's entry: the walk
  starts at token 20, records B among the hosts seen and raises the target to 2, skips B
  for the write, collects C, and stops there, two hosts having been seen.
\<close>

theorem Get_scenario_write:
  assumes "1 \<le> cap_limit"
    and "Tokens (ringDesc r) = scenario_tokens"
    and "Ingesters (ringDesc r) ''A'' = Some a"
    and "Ingesters (ringDesc r) ''C'' = Some c"
  shows "Get cap_limit r 5 1 Write = Inr [a] \<and> Get cap_limit r 15 1 Write = Inr [c]"
  using assms by (simp add: eval_defs scenario_tokens_def)

theorem Get_scenario_write_witness:
  "1 \<le> example_cap_limit
   \<and> Tokens (ringDesc ring_scenario) = scenario_tokens
   \<and> Ingesters (ringDesc ring_scenario) ''A'' = Some node_A
   \<and> Ingesters (ringDesc ring_scenario) ''C'' = Some node_C
   \<and> Get example_cap_limit ring_scenario 5 1 Write = Inr [node_A] \<and> Get example_cap_limit ring_scenario 15 1 Write = Inr [node_C]"
  using Get_scenario_write [of example_cap_limit ring_scenario node_A node_C]
  by (simp add: ring_scenario_def nodes_ABC_def example_cap_limit_def)

text \<open>
  C1 as stated fails: \<open>Get 15 1 Write\<close> on the scenario ring is \<open>[C]\<close>, not \<open>[C, A]\<close>.
\<close>

theorem Get_scenario_15_counterexample:
  "Get example_cap_limit ring_scenario 15 1 Write = Inr [node_C]
   \<and> Get example_cap_limit ring_scenario 15 1 Write \<noteq> Inr [node_C, node_A]"
  by (simp add: eval_defs ring_scenario_def scenario_tokens_def nodes_ABC_def)

text \<open>
  C4, as amended: over one walk the target \<open>n\<close> grows by exactly one for every Leaving
  token read whose node had not been seen earlier in the walk; a token of a node already
  seen is skipped before its state is looked at. So the growth is at most the number of
  distinct nodes that own a Leaving token among those read.
\<close>

theorem walk_target_inflation:
  "n_var (walk r key n op) =
     n + int (length (filter is_Leaving (first_seen (visited_tokens r key n op))))
   \<and> length (filter is_Leaving (first_seen (visited_tokens r key n op)))
       \<le> card (Ingester ` set (filter is_Leaving (visited_tokens r key n op)))"
  using walk_inv_walk [of r key n op] first_seen_Leaving_le_card [of is_Leaving]
  by (simp add: walk_inv_def visited_tokens_def)

theorem walk_target_inflation_witness:
  "n_var (walk ring_AAB 5 1 Read) = 2
   \<and> length (filter is_Leaving (first_seen (visited_tokens ring_AAB 5 1 Read))) = 1"
  using walk_target_inflation [of ring_AAB 5 1 Read]
  by (simp add: visited_tokens_def visited_def first_seen_def is_Leaving_def eval_defs
      ring_AAB_def upt_rec)

text \<open>
  C4 as stated fails: the walk for key 5 and \<open>n = 1\<close> on the ring with tokens
  \<open>(10, A, Leaving)\<close>, \<open>(20, A, Leaving)\<close>, \<open>(30, B, Active)\<close> reads all three tokens, two of
  them Leaving, and ends with the target 2, not 3.
\<close>

theorem walk_target_per_token_counterexample:
  "iterations (walk ring_AAB 5 1 Read) = 3
   \<and> leaving_encountered ring_AAB 5 1 Read = 2
   \<and> n_var (walk ring_AAB 5 1 Read) = 2
   \<and> n_var (walk ring_AAB 5 1 Read) \<noteq> 1 + int (leaving_encountered ring_AAB 5 1 Read)"
  by (simp add: leaving_encountered_def visited_tokens_def visited_def is_Leaving_def eval_defs
      ring_AAB_def upt_rec)

text \<open>
  C5, as amended: a token whose node is absent from the node map is not skipped. The hosts
  a walk selects do not depend on the node map; on a ring with tokens and for a count \<open>n\<close>
  that \<open>make\<close> accepts as a capacity (\<open>0 \<le> n \<le> cap_limit\<close>), \<open>Get\<close> returns without error
  one entry per selected host, in order: the node map's entry of the host, and the
  zero-valued \<open>IngesterDesc\<close> for a host the map does not know.
\<close>

theorem Get_absent_node_zero_entry:
  assumes "Tokens (ringDesc r) \<noteq> []" and "0 \<le> n" and "n \<le> cap_limit"
  shows "Get cap_limit (r\<lparr>ringDesc := (ringDesc r)\<lparr>Ingesters := m\<rparr>\<rparr>) key n op =
           Inr (map (Ingesters_index m) (walk_hosts r key n op))
         \<and> (\<forall>h. m h = None \<longrightarrow> Ingesters_index m h = IngesterDesc_zero)"
proof -
  let ?r' = "r\<lparr>ringDesc := (ringDesc r)\<lparr>Ingesters := m\<rparr>\<rparr>"
  have t: "Tokens (ringDesc ?r') = Tokens (ringDesc r)" by simp
  have "getInternal cap_limit ?r' key n op =
          Inr (map (Ingesters_index (Ingesters (ringDesc ?r'))) (walk_hosts ?r' key n op))"
    using assms by (intro getInternal_hosts) simp_all
  then show ?thesis
    by (simp add: Get_def walk_hosts_Tokens_cong [OF t] Ingesters_index_def)
qed

theorem Get_absent_node_zero_entry_witness:
  "Tokens (ringDesc ring_orphan) \<noteq> [] \<and> (0 :: int) \<le> 2 \<and> 2 \<le> example_cap_limit
   \<and> walk_hosts ring_orphan 5 2 Read = [''X'', ''A'']
   \<and> Ingesters (ringDesc ring_orphan) ''X'' = None
   \<and> Get example_cap_limit ring_orphan 5 2 Read = Inr [IngesterDesc_zero, node_A]"
  using Get_absent_node_zero_entry
    [where r = ring_orphan and n = 2 and cap_limit = example_cap_limit
       and m = "Ingesters (ringDesc ring_orphan)" and key = 5 and op = Read]
  by (simp add: walk_hosts_def selected_hosts_def visited_tokens_def visited_def first_seen_def
      is_Leaving_def eval_defs ring_orphan_def upt_rec)

text \<open>
  C5 as stated fails: on the ring with tokens \<open>(10, X, Active)\<close>, \<open>(20, A, Active)\<close> whose node
  map knows only A, \<open>Get 5 2 Read\<close> returns an entry for the token of X as well.
\<close>

theorem Get_absent_node_counterexample:
  "Ingesters (ringDesc ring_orphan) ''X'' = None
   \<and> Get example_cap_limit ring_orphan 5 2 Read = Inr [IngesterDesc_zero, node_A]
   \<and> Get example_cap_limit ring_orphan 5 2 Read \<noteq> Inr [node_A]"
  by (simp add: eval_defs ring_orphan_def)

text \<open>
  C2, as amended: whenever \<open>Get\<close> returns a list for a read (the ring then has tokens), the
  list holds, in order, the node-map entries of pairwise distinct node identifiers of the
  token list, so no node identifier is resolved twice; its length is at most \<open>n\<close> plus the
  number of Leaving tokens read by the walk, and at most the number of distinct node
  identifiers in the token list. The list itself has no entry twice where the node map sends
  different node identifiers of the token list to different entries; and where every token's
  node is in the node map under an entry that carries its identifier, the node identifiers
  of the returned entries are those resolved identifiers, none of them twice.
\<close>

theorem Get_Read_distinct_bounded:
  assumes "Get cap_limit r key n Read = Inr xs"
  shows "xs = map (Ingesters_index (Ingesters (ringDesc r))) (walk_hosts r key n Read)
    \<and> distinct (walk_hosts r key n Read)
    \<and> set (walk_hosts r key n Read) \<subseteq> Ingester ` set (Tokens (ringDesc r))
    \<and> int (length xs) \<le> n + int (leaving_encountered r key n Read)
    \<and> length xs \<le> card (Ingester ` set (Tokens (ringDesc r)))
    \<and> (inj_on (Ingesters_index (Ingesters (ringDesc r))) (Ingester ` set (Tokens (ringDesc r)))
         \<longrightarrow> distinct xs)
    \<and> (every_token_node_known r
         \<longrightarrow> map node_id xs = walk_hosts r key n Read \<and> distinct (map node_id xs))"
proof -
  let ?vs = "visited_tokens r key n Read"
  let ?hs = "walk_hosts r key n Read"
  let ?f = "Ingesters_index (Ingesters (ringDesc r))"
  from assms have ne: "Tokens (ringDesc r) \<noteq> []" and n0: "0 \<le> n" and nc: "n \<le> cap_limit"
    by (auto simp: Get_def getInternal_def split: if_splits)
  from assms have xs: "xs = map ?f ?hs"
    using getInternal_hosts [OF ne n0 nc, of key Read] by (simp add: Get_def)
  have d: "distinct ?hs"
    by (simp add: walk_hosts_def distinct_selected_hosts)
  have inv: "walk_inv r key n Read (walk r key n Read)" by (rule walk_inv_walk)
  have sub: "set ?hs \<subseteq> Ingester ` set (Tokens (ringDesc r))"
  proof -
    have "set ?hs \<subseteq> Ingester ` set ?vs"
      unfolding walk_hosts_def by (rule set_selected_hosts)
    also have "\<dots> \<subseteq> Ingester ` set (Tokens (ringDesc r))"
      unfolding visited_tokens_def by (rule image_mono) (rule visited_subset [OF ne])
    finally show ?thesis .
  qed
  have "length ?hs = card (set ?hs)"
    using distinct_card [OF d] by simp
  also have "set ?hs = distinctHosts (walk r key n Read)"
    using inv by (simp add: walk_inv_def walk_hosts_def visited_tokens_def selected_hosts_Read
        set_first_seen)
  finally have len: "length ?hs = card (distinctHosts (walk r key n Read))" .
  have "int (length ?hs) \<le> n_var (walk r key n Read)"
    using card_inv [OF n0, of r key Read] len by simp
  also have "\<dots> = n + int (length (filter is_Leaving (first_seen ?vs)))"
    using inv by (simp add: walk_inv_def visited_tokens_def)
  also have "\<dots> \<le> n + int (leaving_encountered r key n Read)"
    using filter_first_seen_le [of is_Leaving ?vs] by (simp add: leaving_encountered_def)
  finally have b1: "int (length xs) \<le> n + int (leaving_encountered r key n Read)"
    by (simp add: xs)
  have "length ?hs = card (set ?hs)"
    using distinct_card [OF d] by simp
  also have "\<dots> \<le> card (Ingester ` set (Tokens (ringDesc r)))"
    using sub by (intro card_mono) auto
  finally have b2: "length xs \<le> card (Ingester ` set (Tokens (ringDesc r)))"
    by (simp add: xs)
  have b3: "distinct xs" if "inj_on ?f (Ingester ` set (Tokens (ringDesc r)))"
  proof -
    from that sub have "inj_on ?f (set ?hs)" by (rule inj_on_subset)
    with d show ?thesis unfolding xs by (simp add: distinct_map)
  qed
  have b4: "map node_id xs = ?hs" if "every_token_node_known r"
  proof -
    have "node_id (?f h) = h" if "h \<in> set ?hs" for h
    proof -
      from that sub obtain t where "t \<in> set (Tokens (ringDesc r))" and "h = Ingester t"
        by auto
      with \<open>every_token_node_known r\<close> show ?thesis
        by (auto simp: every_token_node_known_def Ingesters_index_def)
    qed
    then have "map (\<lambda>h. node_id (?f h)) ?hs = map (\<lambda>h. h) ?hs"
      by (intro map_cong) simp_all
    then show ?thesis by (simp add: xs comp_def)
  qed
  show ?thesis
  proof (intro conjI impI)
    show "xs = map ?f ?hs" by (rule xs)
    show "distinct ?hs" by (rule d)
    show "set ?hs \<subseteq> Ingester ` set (Tokens (ringDesc r))" by (rule sub)
    show "int (length xs) \<le> n + int (leaving_encountered r key n Read)" by (rule b1)
    show "length xs \<le> card (Ingester ` set (Tokens (ringDesc r)))" by (rule b2)
    show "distinct xs" if "inj_on ?f (Ingester ` set (Tokens (ringDesc r)))"
      using that by (rule b3)
    show "map node_id xs = ?hs" if "every_token_node_known r"
      using that by (rule b4)
    show "distinct (map node_id xs)" if "every_token_node_known r"
      using b4 [OF that] d by simp
  qed
qed

theorem Get_Read_distinct_bounded_witness:
  "Get example_cap_limit ring_scenario 15 1 Read = Inr [node_B, node_C]
   \<and> every_token_node_known ring_scenario
   \<and> walk_hosts ring_scenario 15 1 Read = [''B'', ''C'']
   \<and> map node_id [node_B, node_C] = [''B'', ''C'']
   \<and> distinct [node_B, node_C]
   \<and> leaving_encountered ring_scenario 15 1 Read = 1
   \<and> card (Ingester ` set (Tokens (ringDesc ring_scenario))) = 3"
proof -
  have g: "Get example_cap_limit ring_scenario 15 1 Read = Inr [node_B, node_C]"
    by (simp add: eval_defs ring_scenario_def scenario_tokens_def nodes_ABC_def)
  have k: "every_token_node_known ring_scenario"
    by (simp add: every_token_node_known_def ring_scenario_def scenario_tokens_def nodes_ABC_def
        node_A_def node_B_def node_C_def)
  have l: "leaving_encountered ring_scenario 15 1 Read = 1"
    by (simp add: leaving_encountered_def visited_tokens_def visited_def is_Leaving_def
        eval_defs ring_scenario_def scenario_tokens_def upt_rec)
  have c: "card (Ingester ` set (Tokens (ringDesc ring_scenario))) = 3"
    by (simp add: ring_scenario_def scenario_tokens_def)
  have h: "walk_hosts ring_scenario 15 1 Read = [''B'', ''C'']"
    by (simp add: walk_hosts_def selected_hosts_def visited_tokens_def visited_def
        first_seen_def is_Leaving_def eval_defs ring_scenario_def scenario_tokens_def upt_rec)
  have d: "distinct [node_B, node_C]"
    by (simp add: node_B_def node_C_def)
  from Get_Read_distinct_bounded [OF g] g k l c h d show ?thesis by simp
qed

text \<open>
  C2 as stated fails: on the ring with tokens \<open>(10, X, Active)\<close>, \<open>(20, Y, Active)\<close> and an
  empty node map, \<open>Get 0 2 Read\<close> returns the zero-valued entry twice.
\<close>

theorem Get_Read_repeated_entry_counterexample:
  "Tokens (ringDesc ring_XY) \<noteq> []
   \<and> Get example_cap_limit ring_XY 0 2 Read = Inr [IngesterDesc_zero, IngesterDesc_zero]
   \<and> \<not> distinct [IngesterDesc_zero, IngesterDesc_zero]
   \<and> \<not> distinct (map node_id [IngesterDesc_zero, IngesterDesc_zero])"
  by (simp add: eval_defs ring_XY_def)

subsection \<open>The ring search\<close>

lemma sort_Search_loop_correct:
  "i \<le> j \<Longrightarrow> j \<le> n \<Longrightarrow> \<forall>k<i. \<not> f k \<Longrightarrow> \<forall>k. j \<le> k \<and> k < n \<longrightarrow> f k
    \<Longrightarrow> \<forall>a b. a \<le> b \<and> b < n \<and> f a \<longrightarrow> f b
    \<Longrightarrow> sort_Search_loop f i j \<le> n
        \<and> (\<forall>k. k < sort_Search_loop f i j \<longrightarrow> \<not> f k)
        \<and> (\<forall>k. sort_Search_loop f i j \<le> k \<and> k < n \<longrightarrow> f k)"
proof (induction f i j rule: sort_Search_loop.induct)
  case (1 f i j)
  let ?h = "(i + j) div 2"
  show ?case
  proof (cases "i < j")
    case False
    then have "sort_Search_loop f i j = i"
      by (simp add: sort_Search_loop.simps [of f i j])
    moreover from False "1.prems"(1) have "i = j" by simp
    ultimately show ?thesis using "1.prems" by simp
  next
    case True
    then have h: "i \<le> ?h" "?h < j" by simp_all
    show ?thesis
    proof (cases "f ?h")
      case False
      have below: "\<forall>k. k < ?h + 1 \<longrightarrow> \<not> f k"
      proof (intro allI impI notI)
        fix k assume "k < ?h + 1" and fk: "f k"
        then have "k \<le> ?h" by simp
        moreover have "?h < n" using h "1.prems"(2) by simp
        ultimately have "f ?h" using fk "1.prems"(5) by blast
        with False show False ..
      qed
      have "sort_Search_loop f (?h + 1) j \<le> n
        \<and> (\<forall>k. k < sort_Search_loop f (?h + 1) j \<longrightarrow> \<not> f k)
        \<and> (\<forall>k. sort_Search_loop f (?h + 1) j \<le> k \<and> k < n \<longrightarrow> f k)"
        using True False h "1.prems" below by (intro "1.IH"(1)) simp_all
      with True False show ?thesis
        by (simp add: sort_Search_loop.simps [of f i j])
    next
      case fh: True
      have above: "\<forall>k. ?h \<le> k \<and> k < n \<longrightarrow> f k"
        using fh "1.prems"(5) by blast
      have "sort_Search_loop f i ?h \<le> n
        \<and> (\<forall>k. k < sort_Search_loop f i ?h \<longrightarrow> \<not> f k)
        \<and> (\<forall>k. sort_Search_loop f i ?h \<le> k \<and> k < n \<longrightarrow> f k)"
        using True fh h "1.prems" above by (intro "1.IH"(2)) simp_all
      with True fh show ?thesis
        by (simp add: sort_Search_loop.simps [of f i j])
    qed
  qed
qed

lemma sort_Search_correct:
  assumes "\<And>a b. a \<le> b \<Longrightarrow> b < n \<Longrightarrow> f a \<Longrightarrow> f b"
  shows "sort_Search n f \<le> n \<and> (\<forall>k. k < sort_Search n f \<longrightarrow> \<not> f k)
           \<and> (\<forall>k. sort_Search n f \<le> k \<and> k < n \<longrightarrow> f k)"
  unfolding sort_Search_def using assms by (intro sort_Search_loop_correct) auto

text \<open>
  C3: on a non-empty token list sorted by hash, the start index chosen by \<open>search\<close> is the
  index of the first token whose hash is strictly greater than the key (the token there is
  greater, every token before it is not), and it is 0 when no token's hash is strictly
  greater than the key.
\<close>

theorem search_first_greater:
  assumes "Tokens (ringDesc r) \<noteq> []" and "sorted (map Token (Tokens (ringDesc r)))"
  shows "if \<exists>t \<in> set (Tokens (ringDesc r)). key < Token t
         then search r key < length (Tokens (ringDesc r))
              \<and> key < Token (Tokens (ringDesc r) ! search r key)
              \<and> (\<forall>j. j < search r key \<longrightarrow> Token (Tokens (ringDesc r) ! j) \<le> key)
         else search r key = 0"
proof -
  let ?T = "Tokens (ringDesc r)"
  let ?f = "\<lambda>x. key < Token (?T ! x)"
  let ?x = "sort_Search (length ?T) ?f"
  have mono: "?f b" if "a \<le> b" "b < length ?T" "?f a" for a b
  proof -
    from assms(2) that(1,2) have "Token (?T ! a) \<le> Token (?T ! b)"
      by (simp add: sorted_iff_nth_mono)
    with that(3) show ?thesis by simp
  qed
  have x: "?x \<le> length ?T" "\<forall>k. k < ?x \<longrightarrow> \<not> ?f k" "\<forall>k. ?x \<le> k \<and> k < length ?T \<longrightarrow> ?f k"
    using sort_Search_correct [of "length ?T" ?f] mono by blast+
  show ?thesis
  proof (cases "\<exists>t \<in> set ?T. key < Token t")
    case True
    then obtain k where k: "k < length ?T" "?f k" by (auto simp: in_set_conv_nth)
    with x(2) have "?x \<le> k" by (meson not_less)
    with k(1) have lt: "?x < length ?T" by simp
    with x(3) have "?f ?x" by simp
    moreover have "\<forall>j. j < ?x \<longrightarrow> Token (?T ! j) \<le> key" using x(2) by (simp add: not_less)
    ultimately show ?thesis using True lt by (simp add: search_def Let_def)
  next
    case False
    have "\<not> ?x < length ?T"
    proof
      assume lt: "?x < length ?T"
      with x(3) have "?f ?x" by simp
      with lt False show False by (metis nth_mem)
    qed
    with False show ?thesis by (simp add: search_def Let_def)
  qed
qed

theorem search_first_greater_witness:
  "Tokens (ringDesc ring_scenario) \<noteq> [] \<and> sorted (map Token (Tokens (ringDesc ring_scenario)))
   \<and> search ring_scenario 15 = 1 \<and> search ring_scenario 30 = 0"
proof -
  have a: "Tokens (ringDesc ring_scenario) \<noteq> []"
    and b: "sorted (map Token (Tokens (ringDesc ring_scenario)))"
    by (simp_all add: ring_scenario_def scenario_tokens_def)
  have s15: "search ring_scenario 15 = 1" and s30: "search ring_scenario 30 = 0"
    by (simp_all add: eval_defs ring_scenario_def scenario_tokens_def)
  have "key < Token (Tokens (ringDesc ring_scenario) ! search ring_scenario key)"
    if "\<exists>t \<in> set (Tokens (ringDesc ring_scenario)). key < Token t" for key
    using search_first_greater [OF a b, of key] that by simp
  from this [of 15] have "(15 :: 32 word) < Token (Tokens (ringDesc ring_scenario) ! 1)"
    by (simp add: s15 ring_scenario_def scenario_tokens_def)
  with a b s15 s30 show ?thesis by simp
qed

subsection \<open>Batches\<close>

lemma getInternal_error_key_independent:
  "getInternal cap_limit r key n op = Inl e \<Longrightarrow> getInternal cap_limit r key' n op = Inl e"
  by (simp add: getInternal_def split: if_splits)

lemma BatchGet_loop_all_succeed:
  "length result = i + length keys \<Longrightarrow> \<forall>k \<in> set keys. getInternal cap_limit r k n op = Inr (g k)
     \<Longrightarrow> BatchGet_loop cap_limit r n op i keys result = Inr (take i result @ map g keys)"
proof (induction keys arbitrary: i result)
  case Nil
  then show ?case by simp
next
  case (Cons key keys)
  have "BatchGet_loop cap_limit r n op (i + 1) keys (result[i := g key])
          = Inr (take (i + 1) (result[i := g key]) @ map g keys)"
    using Cons.prems by (intro Cons.IH) simp_all
  moreover have "take (i + 1) (result[i := g key]) = take i result @ [g key]"
    using Cons.prems(1) by (simp add: take_Suc_conv_app_nth)
  ultimately show ?case using Cons.prems(2) by simp
qed

lemma BatchGet_loop_fails:
  "k \<in> set keys \<Longrightarrow> getInternal cap_limit r k n op = Inl e
     \<Longrightarrow> BatchGet_loop cap_limit r n op i keys result = Inl e"
proof (induction keys arbitrary: i result)
  case Nil
  then show ?case by simp
next
  case (Cons key keys)
  from Cons.prems(2) have "getInternal cap_limit r key n op = Inl e"
    by (rule getInternal_error_key_independent)
  then show ?case by simp
qed

lemma BatchGet_all_succeed:
  assumes "\<forall>k \<in> set keys. getInternal cap_limit r k n op = Inr (g k)"
  shows "BatchGet cap_limit r keys n op = Inr (map g keys)"
  using BatchGet_loop_all_succeed [of "replicate (length keys) []" 0 keys cap_limit r n op g]
    assms
  by (simp add: BatchGet_def)

text \<open>
  C7: on one ring, \<open>BatchGet\<close> returns a list exactly when \<open>Get\<close> succeeds for every key,
  and that list has the length of \<open>keys\<close> with \<open>Get\<close>'s result for \<open>keys ! i\<close> at index \<open>i\<close>;
  if \<open>Get\<close> fails for any key, \<open>BatchGet\<close> fails with that error and returns no results.
\<close>

theorem BatchGet_pointwise_Get:
  "(BatchGet cap_limit r keys n op = Inr rs \<longleftrightarrow>
      length rs = length keys \<and> (\<forall>i < length keys. Get cap_limit r (keys ! i) n op = Inr (rs ! i)))
   \<and> (\<forall>k \<in> set keys. \<forall>e. Get cap_limit r k n op = Inl e \<longrightarrow> BatchGet cap_limit r keys n op = Inl e)"
proof (intro conjI iffI ballI allI impI)
  fix k e
  assume "k \<in> set keys" and "Get cap_limit r k n op = Inl e"
  then show "BatchGet cap_limit r keys n op = Inl e"
    by (simp add: BatchGet_def Get_def BatchGet_loop_fails)
next
  assume ok: "BatchGet cap_limit r keys n op = Inr rs"
  have all: "\<forall>k \<in> set keys. getInternal cap_limit r k n op = Inr (projr (getInternal cap_limit r k n op))"
  proof
    fix k assume k: "k \<in> set keys"
    show "getInternal cap_limit r k n op = Inr (projr (getInternal cap_limit r k n op))"
    proof (cases "getInternal cap_limit r k n op")
      case (Inl e)
      with k have "BatchGet cap_limit r keys n op = Inl e"
        by (simp add: BatchGet_def BatchGet_loop_fails)
      with ok show ?thesis by simp
    next
      case (Inr xs)
      then show ?thesis by simp
    qed
  qed
  from BatchGet_all_succeed [OF all] ok
  have rs: "rs = map (\<lambda>k. projr (getInternal cap_limit r k n op)) keys" by simp
  show "length rs = length keys" by (simp add: rs)
  fix i assume "i < length keys"
  with all show "Get cap_limit r (keys ! i) n op = Inr (rs ! i)"
    by (simp add: rs Get_def)
next
  assume a: "length rs = length keys \<and> (\<forall>i < length keys. Get cap_limit r (keys ! i) n op = Inr (rs ! i))"
  have all: "\<forall>k \<in> set keys. getInternal cap_limit r k n op = Inr (projr (getInternal cap_limit r k n op))"
    using a by (auto simp: in_set_conv_nth Get_def)
  have "map (\<lambda>k. projr (getInternal cap_limit r k n op)) keys = rs"
    using a by (intro nth_equalityI) (simp_all add: Get_def)
  with BatchGet_all_succeed [OF all] show "BatchGet cap_limit r keys n op = Inr rs" by simp
qed

theorem BatchGet_pointwise_Get_witness:
  "BatchGet example_cap_limit ring_scenario [5, 15, 35] 1 Write = Inr [[node_A], [node_C], [node_A]]
   \<and> Get example_cap_limit ring_scenario 15 1 Write = Inr [node_C]
   \<and> Get example_cap_limit ring_empty 5 1 Write = Inl ErrEmptyRing
   \<and> BatchGet example_cap_limit ring_empty [5, 15] 1 Write = Inl ErrEmptyRing"
proof -
  have b: "BatchGet example_cap_limit ring_scenario [5, 15, 35] 1 Write = Inr [[node_A], [node_C], [node_A]]"
    by (simp add: BatchGet_def eval_defs ring_scenario_def scenario_tokens_def nodes_ABC_def)
  have e: "Get example_cap_limit ring_empty 5 1 Write = Inl ErrEmptyRing"
    by (simp add: Get_def getInternal_def ring_empty_def)
  from BatchGet_pointwise_Get
    [of example_cap_limit ring_scenario "[5, 15, 35]" 1 Write "[[node_A], [node_C], [node_A]]"] b
  have "\<forall>i < length [5, 15, 35 :: 32 word].
          Get example_cap_limit ring_scenario ([5, 15, 35] ! i) 1 Write = Inr ([[node_A], [node_C], [node_A]] ! i)"
    by blast
  from this [rule_format, of 1]
  have "Get example_cap_limit ring_scenario 15 1 Write = Inr [node_C]" by simp
  moreover from BatchGet_pointwise_Get [of example_cap_limit ring_empty "[5, 15]" 1 Write "[]"] e
  have "BatchGet example_cap_limit ring_empty [5, 15] 1 Write = Inl ErrEmptyRing" by simp
  ultimately show ?thesis using b e by simp
qed

subsection \<open>Ownership\<close>

lemma unat_m1: "unat (- 1 :: 32 word) = 4294967295"
  by (simp add: unsigned_minus_1_eq_mask mask_eq_exp_minus_1)

lemma owned_index_le: "unat (owned_index owned k) \<le> owned_total owned"
  by (induction owned) (auto simp: owned_index_def owned_total_def)

lemma update_total:
  "owned_total (AList.update k v owned) + unat (owned_index owned k) = owned_total owned + unat v"
  by (induction owned) (auto simp: owned_index_def owned_total_def)

lemma Collect_step_total:
  assumes "owned_total owned + unat (Collect_diff ts i) < 2 ^ 32"
  shows "owned_total (Collect_step ts owned i) = owned_total owned + unat (Collect_diff ts i)"
proof -
  let ?k = "Ingester (ts ! i)"
  let ?a = "owned_index owned ?k"
  let ?d = "Collect_diff ts i"
  have "unat ?a + unat ?d < 2 ^ LENGTH(32)"
    using assms owned_index_le [of owned ?k] by simp
  then have "unat (?a + ?d) = unat ?a + unat ?d"
    by (simp only: unat_add_lem)
  with update_total [of ?k "?a + ?d" owned] show ?thesis
    by (simp add: Collect_step_def)
qed

lemma Collect_fold_total:
  assumes "(\<Sum>i<m. unat (Collect_diff ts i)) < 2 ^ 32"
  shows "k \<le> m \<Longrightarrow>
    owned_total (foldl (Collect_step ts) [] [0..<k]) = (\<Sum>i<k. unat (Collect_diff ts i))"
proof (induction k)
  case 0
  show ?case by (simp add: owned_total_def)
next
  case (Suc k)
  then have ih: "owned_total (foldl (Collect_step ts) [] [0..<k]) = (\<Sum>i<k. unat (Collect_diff ts i))"
    by simp
  have "(\<Sum>i<Suc k. unat (Collect_diff ts i)) \<le> (\<Sum>i<m. unat (Collect_diff ts i))"
    using Suc.prems by (intro sum_mono2) auto
  with assms have "owned_total (foldl (Collect_step ts) [] [0..<k]) + unat (Collect_diff ts k) < 2 ^ 32"
    by (simp add: ih)
  from Collect_step_total [OF this] ih show ?case by simp
qed

lemma diff_inner:
  assumes "sorted (map Token ts)" and "i + 1 < length ts"
  shows "unat (Collect_diff ts i) = unat (Token (ts ! (i + 1))) - unat (Token (ts ! i))"
proof -
  from assms have "Token (ts ! i) \<le> Token (ts ! (i + 1))"
    by (simp add: sorted_iff_nth_mono)
  then show ?thesis using assms(2) by (simp add: Collect_diff_def unat_sub)
qed

lemma diff_prefix_sum:
  assumes "sorted (map Token ts)"
  shows "k < length ts \<Longrightarrow>
    (\<Sum>i<k. unat (Collect_diff ts i)) + unat (Token (ts ! 0)) = unat (Token (ts ! k))"
proof (induction k)
  case 0
  show ?case by simp
next
  case (Suc k)
  from assms Suc.prems have "Token (ts ! k) \<le> Token (ts ! Suc k)"
    by (simp add: sorted_iff_nth_mono)
  then have "unat (Token (ts ! k)) \<le> unat (Token (ts ! Suc k))"
    by (simp add: word_le_nat_alt)
  with Suc diff_inner [OF assms, of k] show ?case by simp
qed

lemma diff_last:
  assumes "sorted (map Token ts)" and "k + 1 = length ts"
  shows "unat (Collect_diff ts k) + unat (Token (ts ! k)) = 4294967295 + unat (Token (ts ! 0))"
proof -
  let ?l = "Token (ts ! k)"
  let ?f = "Token (ts ! 0)"
  from assms have "?f \<le> ?l" by (simp add: sorted_iff_nth_mono)
  then have fl: "unat ?f \<le> unat ?l" by (simp add: word_le_nat_alt)
  have l: "unat ?l < 4294967296" using unsigned_less [of ?l] by simp
  have m: "unat (- 1 - ?l) = 4294967295 - unat ?l"
    by (simp add: unat_sub unat_m1)
  have "unat (- 1 - ?l) + unat ?f < 2 ^ LENGTH(32)"
    unfolding m using fl l by simp
  then have "unat ((- 1 - ?l) + ?f) = unat (- 1 - ?l) + unat ?f"
    by (simp only: unat_add_lem)
  then have "unat (Collect_diff ts k) = (4294967295 - unat ?l) + unat ?f"
    unfolding m using assms(2) by (simp add: Collect_diff_def)
  with l show ?thesis by linarith
qed

lemma diff_total:
  assumes "sorted (map Token ts)" and "ts \<noteq> []"
  shows "(\<Sum>i<length ts. unat (Collect_diff ts i)) = 4294967295"
proof -
  from assms(2) obtain k where len: "length ts = Suc k"
    by (cases ts) simp_all
  have "(\<Sum>i<k. unat (Collect_diff ts i)) + unat (Token (ts ! 0)) = unat (Token (ts ! k))"
    using len by (intro diff_prefix_sum [OF assms(1)]) simp
  moreover have "unat (Collect_diff ts k) + unat (Token (ts ! k))
                   = 4294967295 + unat (Token (ts ! 0))"
    using len by (intro diff_last [OF assms(1)]) simp
  ultimately have "(\<Sum>i<k. unat (Collect_diff ts i)) + unat (Collect_diff ts k) = 4294967295"
    by linarith
  then show ?thesis by (simp add: len)
qed

lemma owned_total_Collect:
  assumes "sorted (map Token (Tokens (ringDesc r)))" and "Tokens (ringDesc r) \<noteq> []"
  shows "owned_total (Collect_owned r) = 4294967295"
  unfolding Collect_owned_def
  using Collect_fold_total [where m = "length (Tokens (ringDesc r))"
      and ts = "Tokens (ringDesc r)" and k = "length (Tokens (ringDesc r))"] diff_total [OF assms]
  by simp

lemma Collect_fold_keys:
  "k \<le> length ts \<Longrightarrow>
     distinct (map fst (foldl (Collect_step ts) [] [0..<k]))
     \<and> fst ` set (foldl (Collect_step ts) [] [0..<k]) = Ingester ` set (take k ts)"
proof (induction k)
  case 0
  show ?case by simp
next
  case (Suc k)
  then have "take (Suc k) ts = take k ts @ [ts ! k]"
    by (simp add: take_Suc_conv_app_nth)
  with Suc show ?case
    by (auto simp: Collect_step_def AList.distinct_update AList.dom_update)
qed


lemma Collect_ownership_keys: "map fst (Collect_ownership r) = map fst (Collect_owned r)"
  by (simp add: Collect_ownership_def case_prod_unfold)

lemma Collect_diff_segment:
  assumes "sorted (map Token ts)" and "i < length ts"
  shows "unat (Collect_diff ts i) = segment_size ts i"
proof (cases "i + 1 = length ts")
  case True
  have "unat (Token (ts ! i)) < 4294967296"
    using unsigned_less [of "Token (ts ! i)"] by simp
  with diff_last [OF assms(1) True] True show ?thesis
    by (simp add: segment_size_def)
next
  case False
  with assms(2) have "i + 1 < length ts" by simp
  from diff_inner [OF assms(1) this] False show ?thesis
    by (simp add: segment_size_def)
qed

lemma owned_index_update:
  "owned_index (AList.update k v owned) h = (if h = k then v else owned_index owned h)"
  by (simp add: owned_index_def AList.update_conv')

lemma owned_index_Collect_step:
  "owned_index (Collect_step ts owned i) h =
     (if h = Ingester (ts ! i) then owned_index owned (Ingester (ts ! i)) + Collect_diff ts i
      else owned_index owned h)"
  by (simp add: Collect_step_def owned_index_update)

lemma part_sum_Suc:
  "part_sum ts h (Suc k) =
     part_sum ts h k + (if Ingester (ts ! k) = h then unat (Collect_diff ts k) else 0)"
  by (simp add: part_sum_def)

lemma part_sum_le: "part_sum ts h k \<le> (\<Sum>i<k. unat (Collect_diff ts i))"
  by (induction k) (simp_all add: part_sum_Suc part_sum_def)

lemma Collect_fold_node:
  assumes "(\<Sum>i<m. unat (Collect_diff ts i)) < 2 ^ 32"
  shows "k \<le> m \<Longrightarrow>
    unat (owned_index (foldl (Collect_step ts) [] [0..<k]) h) = part_sum ts h k"
proof (induction k arbitrary: h)
  case 0
  show ?case by (simp add: owned_index_def part_sum_def)
next
  case (Suc k)
  let ?owned = "foldl (Collect_step ts) [] [0..<k]"
  let ?key = "Ingester (ts ! k)"
  let ?d = "Collect_diff ts k"
  have ih: "unat (owned_index ?owned h') = part_sum ts h' k" for h'
    using Suc by simp
  have "(\<Sum>i<Suc k. unat (Collect_diff ts i)) \<le> (\<Sum>i<m. unat (Collect_diff ts i))"
    using Suc.prems by (intro sum_mono2) auto
  with assms part_sum_le [of ts ?key k]
  have "unat (owned_index ?owned ?key) + unat ?d < 2 ^ LENGTH(32)"
    by (simp add: ih)
  then have add: "unat (owned_index ?owned ?key + ?d) = unat (owned_index ?owned ?key) + unat ?d"
    by (simp only: unat_add_lem)
  have fold: "foldl (Collect_step ts) [] [0..<Suc k] = Collect_step ts ?owned k" by simp
  show ?case
  proof (cases "h = ?key")
    case True
    have "unat (owned_index (Collect_step ts ?owned k) ?key) = part_sum ts ?key k + unat ?d"
      by (simp only: owned_index_Collect_step refl if_True add ih)
    with True show ?thesis by (simp only: fold) (simp add: part_sum_Suc)
  next
    case False
    then have "unat (owned_index (Collect_step ts ?owned k) h) = part_sum ts h k"
      by (simp add: owned_index_Collect_step ih)
    with False show ?thesis by (simp only: fold) (simp add: part_sum_Suc)
  qed
qed

lemma part_sum_segments:
  assumes "sorted (map Token ts)"
  shows "part_sum ts h (length ts) = node_segments ts h"
proof -
  have "map (\<lambda>i. unat (Collect_diff ts i)) (filter (\<lambda>i. Ingester (ts ! i) = h) [0..<length ts])
      = map (segment_size ts) (filter (\<lambda>i. Ingester (ts ! i) = h) [0..<length ts])"
    by (rule map_cong) (simp_all add: Collect_diff_segment [OF assms])
  then show ?thesis unfolding part_sum_def node_segments_def by (rule arg_cong)
qed

lemma Collect_owned_node:
  assumes "sorted (map Token (Tokens (ringDesc r)))" and "Tokens (ringDesc r) \<noteq> []"
  shows "unat (owned_index (Collect_owned r) h) = node_segments (Tokens (ringDesc r)) h"
  unfolding Collect_owned_def
  using Collect_fold_node [where m = "length (Tokens (ringDesc r))"
      and ts = "Tokens (ringDesc r)" and k = "length (Tokens (ringDesc r))" and h = h]
    diff_total [OF assms] part_sum_segments [OF assms(1), of h]
  by simp

lemma owned_index_entry:
  "distinct (map fst owned) \<Longrightarrow> (h, t) \<in> set owned \<Longrightarrow> owned_index owned h = t"
  by (simp add: owned_index_def)

text \<open>The rounding of the quotient.\<close>

lemma float64_shift_ge:
  "0 < a \<Longrightarrow> 2 ^ 52 * b \<le> a * 2 ^ float64_shift a b k"
proof (induction a b k rule: float64_shift.induct)
  case (1 a b k)
  show ?case
  proof (cases "2 ^ 52 * b \<le> a * 2 ^ k")
    case True
    then show ?thesis by (simp add: float64_shift.simps [of a b k])
  next
    case False
    with "1.prems" have "2 ^ 52 * b \<le> a * 2 ^ float64_shift a b (k + 1)"
      by (intro "1.IH") simp_all
    with False "1.prems" show ?thesis by (simp add: float64_shift.simps [of a b k])
  qed
qed

lemma round_half_even_error:
  assumes "0 < b"
  shows "\<bar>real (round_half_even x b) - real x / real b\<bar> \<le> 1 / 2"
proof -
  let ?q = "x div b" and ?r = "x mod b"
  have x: "real x = real ?q * real b + real ?r"
    by (metis div_mult_mod_eq of_nat_add of_nat_mult)
  have rb: "real ?r < real b" using assms by simp
  have b: "0 < real b" using assms by simp
  have q: "real x / real b = real ?q + real ?r / real b"
    using b by (simp add: x add_divide_distrib)
  consider "2 * ?r < b" | "b < 2 * ?r" | "2 * ?r = b" by linarith
  then show ?thesis
  proof cases
    case 1
    then have "real ?r / real b \<le> 1 / 2" using b by (simp add: field_simps)
    moreover have "0 \<le> real ?r / real b" using b by simp
    ultimately show ?thesis using 1 by (simp add: round_half_even_def Let_def q)
  next
    case 2
    then have "1 / 2 \<le> real ?r / real b" using b by (simp add: field_simps)
    moreover have "real ?r / real b \<le> 1" using b rb by (simp add: field_simps)
    ultimately show ?thesis using 2 by (simp add: round_half_even_def Let_def q)
  next
    case 3
    then have "2 * real ?r = real b"
      by (metis of_nat_mult of_nat_numeral)
    then have "real ?r / real b = 1 / 2" using b
      by (simp add: field_simps)
    then show ?thesis using 3 by (simp add: round_half_even_def Let_def q)
  qed
qed

lemma float64_div_error:
  assumes "0 < b"
  shows "\<bar>float64_div a b - real a / real b\<bar> \<le> real a / real b / 2 ^ 53"
proof (cases "a = 0")
  case True
  then show ?thesis by (simp add: float64_div_def)
next
  case False
  define k where "k = float64_shift a b 0"
  define m where "m = round_half_even (a * 2 ^ k) b"
  have f: "float64_div a b = real m / 2 ^ k"
    using False by (simp add: float64_div_def Let_def k_def m_def)
  have ge: "2 ^ 52 * b \<le> a * 2 ^ k"
    unfolding k_def using False by (intro float64_shift_ge) simp
  have b: "0 < real b" using assms by simp
  have p: "(0::real) < 2 ^ k" by simp
  have "\<bar>real m - real (a * 2 ^ k) / real b\<bar> \<le> 1 / 2"
    unfolding m_def by (rule round_half_even_error [OF assms])
  then have "\<bar>real m - real (a * 2 ^ k) / real b\<bar> / 2 ^ k \<le> 1 / 2 / 2 ^ k"
    by (rule divide_right_mono) simp
  moreover have "\<bar>real m - real (a * 2 ^ k) / real b\<bar> / 2 ^ k
               = \<bar>real m / 2 ^ k - real a / real b\<bar>"
  proof -
    have "(real m - real (a * 2 ^ k) / real b) / 2 ^ k = real m / 2 ^ k - real a / real b"
      by (simp add: field_simps)
    then show ?thesis by (metis abs_divide abs_of_pos p)
  qed
  moreover have "1 / 2 / 2 ^ k \<le> real a / real b / 2 ^ 53"
  proof -
    from ge have "real (2 ^ 52 * b) \<le> real (a * 2 ^ k)" by (simp only: of_nat_le_iff)
    then have "2 ^ 52 * real b \<le> real a * 2 ^ k" by simp
    then have "2 ^ 52 \<le> real a / real b * 2 ^ k" using b by (simp add: field_simps)
    then have "2 ^ 52 / 2 ^ k \<le> real a / real b" using p by (simp add: field_simps)
    then have "2 ^ 52 / 2 ^ k / 2 ^ 53 \<le> real a / real b / 2 ^ 53"
      by (rule divide_right_mono) simp
    moreover have "(1::real) / 2 / 2 ^ k = 2 ^ 52 / 2 ^ k / 2 ^ 53" by simp
    ultimately show ?thesis by simp
  qed
  ultimately show ?thesis by (simp add: f)
qed

lemma ownership_sum_exact:
  "sum_list (map (\<lambda>p. real (unat (snd p)) / c) owned) = real (owned_total owned) / c"
  by (induction owned) (auto simp: owned_total_def add_divide_distrib)

lemma ownership_sum_error:
  assumes "0 < b"
  shows "\<bar>sum_list (map (\<lambda>p. float64_div (unat (snd p)) b) owned)
          - sum_list (map (\<lambda>p. real (unat (snd p)) / real b) owned)\<bar>
         \<le> sum_list (map (\<lambda>p. real (unat (snd p)) / real b) owned) / 2 ^ 53"
proof (induction owned)
  case Nil
  show ?case by simp
next
  case (Cons p owned)
  let ?g = "\<lambda>p. float64_div (unat (snd p)) b"
  let ?e = "\<lambda>p. real (unat (snd p)) / real b"
  have "\<bar>?g p - ?e p\<bar> \<le> ?e p / 2 ^ 53"
    by (rule float64_div_error [OF assms])
  with Cons
  have "\<bar>(?g p + sum_list (map ?g owned)) - (?e p + sum_list (map ?e owned))\<bar>
          \<le> ?e p / 2 ^ 53 + sum_list (map ?e owned) / 2 ^ 53"
    by linarith
  then show ?case by (simp only: list.map sum_list.Cons add_divide_distrib)
qed

text \<open>
  C8, as amended: for a non-empty token list strictly sorted by hash, \<open>Collect\<close> keeps one
  total per node of the token list; each total is, without wrapping, the sum of the
  segments of the node's tokens; the totals add up to \<open>2^32 - 1\<close>, so that the exact
  fractions, total over \<open>2^32 - 1\<close>, sum to exactly 1. The exported gauge of a node is its
  fraction rounded by the \<open>float64\<close> division, within a relative error of \<open>2^-53\<close>, and the
  gauges sum to 1 within \<open>2^-53\<close>.
\<close>

theorem Collect_ownership_sums_near_one:
  assumes "Tokens (ringDesc r) \<noteq> []" and "sorted_wrt (<) (map Token (Tokens (ringDesc r)))"
  shows "distinct (map fst (Collect_ownership r))
    \<and> set (map fst (Collect_ownership r)) = Ingester ` set (Tokens (ringDesc r))
    \<and> (\<forall>h t. (h, t) \<in> set (Collect_owned r)
          \<longrightarrow> unat t = node_segments (Tokens (ringDesc r)) h)
    \<and> owned_total (Collect_owned r) = 4294967295
    \<and> Collect_ownership r =
        map (\<lambda>(h, t). (h, float64_div (node_segments (Tokens (ringDesc r)) h) 4294967295))
          (Collect_owned r)
    \<and> (\<forall>h g. (h, g) \<in> set (Collect_ownership r)
          \<longrightarrow> \<bar>g - real (node_segments (Tokens (ringDesc r)) h) / 4294967295\<bar>
              \<le> real (node_segments (Tokens (ringDesc r)) h) / 4294967295 / 2 ^ 53)
    \<and> sum_list (map (\<lambda>h. real (node_segments (Tokens (ringDesc r)) h) / 4294967295)
          (map fst (Collect_ownership r))) = 1
    \<and> \<bar>sum_list (map snd (Collect_ownership r)) - 1\<bar> \<le> 1 / 2 ^ 53"
proof -
  let ?ts = "Tokens (ringDesc r)"
  let ?owned = "Collect_owned r"
  let ?M = "4294967295 :: nat"
  from assms(2) have so: "sorted (map Token ?ts)"
    by (rule strict_sorted_imp_sorted)
  have tot: "owned_total ?owned = 4294967295"
    using so assms(1) by (rule owned_total_Collect)
  have k: "distinct (map fst ?owned) \<and> fst ` set ?owned = Ingester ` set ?ts"
    unfolding Collect_owned_def
    using Collect_fold_keys [of "length ?ts" ?ts] by simp
  have node: "unat t = node_segments ?ts h" if "(h, t) \<in> set ?owned" for h t
    using owned_index_entry [OF conjunct1 [OF k] that] Collect_owned_node [OF so assms(1), of h]
    by simp
  have node_r: "real (node_segments ?ts h) = real (unat t)" if "(h, t) \<in> set ?owned" for h t
    using node [OF that] by simp
  have eq: "Collect_ownership r =
      map (\<lambda>(h, t). (h, float64_div (node_segments ?ts h) 4294967295)) ?owned"
    unfolding Collect_ownership_def
    by (rule map_cong) (auto simp: unat_m1 node)
  have g: "\<bar>g - real (node_segments ?ts h) / 4294967295\<bar>
             \<le> real (node_segments ?ts h) / 4294967295 / 2 ^ 53"
    if "(h, g) \<in> set (Collect_ownership r)" for h g
  proof -
    from that have "g = float64_div (node_segments ?ts h) ?M"
      unfolding eq by auto
    with float64_div_error [of ?M "node_segments ?ts h"] show ?thesis by simp
  qed
  have ex: "sum_list (map (\<lambda>p. real (unat (snd p)) / real ?M) ?owned) = 1"
    by (simp only: ownership_sum_exact tot)
  have "map (\<lambda>h. real (node_segments ?ts h) / 4294967295) (map fst ?owned)
      = map (\<lambda>p. real (unat (snd p)) / real ?M) ?owned"
    unfolding map_map by (rule map_cong) (use node_r in auto)
  with ex have exs: "sum_list (map (\<lambda>h. real (node_segments ?ts h) / 4294967295)
          (map fst (Collect_ownership r))) = 1"
    by (simp only: Collect_ownership_keys)
  have "map snd (Collect_ownership r) = map (\<lambda>p. float64_div (unat (snd p)) ?M) ?owned"
    by (simp add: Collect_ownership_def unat_m1 case_prod_unfold)
  with ownership_sum_error [of ?M ?owned] ex
  have sb: "\<bar>sum_list (map snd (Collect_ownership r)) - 1\<bar> \<le> 1 / 2 ^ 53"
    by simp
  from k have k': "distinct (map fst (Collect_ownership r))"
    "set (map fst (Collect_ownership r)) = Ingester ` set ?ts"
    by (simp_all add: Collect_ownership_keys)
  show ?thesis
  proof (intro conjI allI impI)
    show "distinct (map fst (Collect_ownership r))" by (rule k'(1))
    show "set (map fst (Collect_ownership r)) = Ingester ` set ?ts" by (rule k'(2))
    show "unat t = node_segments ?ts h" if "(h, t) \<in> set ?owned" for h t
      using that by (rule node)
    show "owned_total ?owned = 4294967295" by (rule tot)
    show "Collect_ownership r =
      map (\<lambda>(h, t). (h, float64_div (node_segments ?ts h) 4294967295)) ?owned" by (rule eq)
    show "\<bar>g - real (node_segments ?ts h) / 4294967295\<bar>
             \<le> real (node_segments ?ts h) / 4294967295 / 2 ^ 53"
      if "(h, g) \<in> set (Collect_ownership r)" for h g using that by (rule g)
    show "sum_list (map (\<lambda>h. real (node_segments ?ts h) / 4294967295)
          (map fst (Collect_ownership r))) = 1" by (rule exs)
    show "\<bar>sum_list (map snd (Collect_ownership r)) - 1\<bar> \<le> 1 / 2 ^ 53" by (rule sb)
  qed
qed

theorem Collect_ownership_sums_near_one_witness:
  "Tokens (ringDesc ring_two_nodes) \<noteq> []
   \<and> sorted_wrt (<) (map Token (Tokens (ringDesc ring_two_nodes)))
   \<and> Collect_owned ring_two_nodes = [(''A'', 2294967295), (''B'', 2000000000)]
   \<and> node_segments (Tokens (ringDesc ring_two_nodes)) ''A'' = 2294967295
   \<and> \<bar>sum_list (map snd (Collect_ownership ring_two_nodes)) - 1\<bar> \<le> 1 / 2 ^ 53"
proof -
  have a: "Tokens (ringDesc ring_two_nodes) \<noteq> []"
    and b: "sorted_wrt (<) (map Token (Tokens (ringDesc ring_two_nodes)))"
    by (simp_all add: ring_two_nodes_def)
  have c: "Collect_owned ring_two_nodes = [(''A'', 2294967295), (''B'', 2000000000)]"
    by (simp add: Collect_owned_def Collect_step_def Collect_diff_def owned_index_def
        ring_two_nodes_def upt_rec)
  have m: "(''A'', 2294967295) \<in> set (Collect_owned ring_two_nodes)"
    by (simp add: c)
  from Collect_ownership_sums_near_one [OF a b] have
    n: "\<forall>h t. (h, t) \<in> set (Collect_owned ring_two_nodes)
          \<longrightarrow> unat t = node_segments (Tokens (ringDesc ring_two_nodes)) h"
    and s: "\<bar>sum_list (map snd (Collect_ownership ring_two_nodes)) - 1\<bar> \<le> 1 / 2 ^ 53"
    by blast+
  from n m have "unat (2294967295 :: 32 word) = node_segments (Tokens (ringDesc ring_two_nodes)) ''A''"
    by blast
  then have "node_segments (Tokens (ringDesc ring_two_nodes)) ''A'' = 2294967295" by simp
  with a b c s show ?thesis by simp
qed

text \<open>
  C8 as stated fails: on the ring with the tokens 10 of A and 20 of B the two gauges are
  \<open>21474836485 / 2^63\<close> and \<open>2147483643 / 2^31\<close>, whose sum is not 1.
\<close>

theorem Collect_ownership_sum_counterexample:
  "Tokens (ringDesc ring_AB) \<noteq> [] \<and> sorted_wrt (<) (map Token (Tokens (ringDesc ring_AB)))
   \<and> Collect_owned ring_AB = [(''A'', 10), (''B'', 4294967285)]
   \<and> Collect_ownership ring_AB =
       [(''A'', 21474836485 / 9223372036854775808), (''B'', 2147483643 / 2147483648)]
   \<and> sum_list (map snd (Collect_ownership ring_AB)) \<noteq> 1"
proof -
  have o: "Collect_owned ring_AB = [(''A'', 10), (''B'', 4294967285)]"
    by (simp add: Collect_owned_def Collect_step_def Collect_diff_def owned_index_def
        ring_AB_def upt_rec)
  have fa: "float64_div 10 4294967295 = 21474836485 / 9223372036854775808"
    by (simp add: float64_div_def float64_shift.simps round_half_even_def Let_def)
  have fb: "float64_div 4294967285 4294967295 = 2147483643 / 2147483648"
    by (simp add: float64_div_def float64_shift.simps round_half_even_def Let_def)
  have c: "Collect_ownership ring_AB =
       [(''A'', 21474836485 / 9223372036854775808), (''B'', 2147483643 / 2147483648)]"
    by (simp add: Collect_ownership_def o unat_m1 fa fb)
  show ?thesis by (simp add: o c) (simp add: ring_AB_def)
qed

subsection \<open>Errors\<close>

text \<open>
  C6: \<open>Get\<close> returns \<open>ErrEmptyRing\<close> exactly when the current descriptor has no tokens,
  whatever the key, the count and the operation.
\<close>

theorem Get_ErrEmptyRing_iff:
  "Get cap_limit r key n op = Inl ErrEmptyRing \<longleftrightarrow> Tokens (ringDesc r) = []"
  by (simp add: Get_def getInternal_def)

theorem Get_ErrEmptyRing_iff_witness:
  "Get example_cap_limit ring_empty 7 3 Read = Inl ErrEmptyRing \<and> Get example_cap_limit ring_scenario 7 3 Write \<noteq> Inl ErrEmptyRing"
  using Get_ErrEmptyRing_iff [of example_cap_limit ring_empty 7 3 Read]
    Get_ErrEmptyRing_iff [of example_cap_limit ring_scenario 7 3 Write]
  by (simp add: ring_empty_def ring_scenario_def scenario_tokens_def)

text \<open>
  C10: \<open>BatchGet\<close> with no keys returns an empty result and no error on every ring, also
  on a ring without tokens, where \<open>Get\<close> fails with \<open>ErrEmptyRing\<close> for every key.
\<close>

theorem BatchGet_no_keys:
  "BatchGet cap_limit r [] n op = Inr []
   \<and> (Tokens (ringDesc r) = [] \<longrightarrow> Get cap_limit r key n op = Inl ErrEmptyRing)"
  by (simp add: BatchGet_def Get_def getInternal_def)

theorem BatchGet_no_keys_witness:
  "Tokens (ringDesc ring_empty) = [] \<and> BatchGet example_cap_limit ring_empty [] 3 Write = Inr []
   \<and> Get example_cap_limit ring_empty 5 3 Write = Inl ErrEmptyRing"
  using BatchGet_no_keys [of example_cap_limit ring_empty 3 Write 5]
  by (simp add: ring_empty_def)

subsection \<open>The watch callback\<close>

text \<open>
  C9: called with the nil value, the callback leaves the ring (tokens and node map) as it
  was and answers \<open>true\<close>, to keep watching; a descriptor value replaces the current
  descriptor; and whenever the callback returns with a changed descriptor, its argument was
  a descriptor value, the new descriptor.
\<close>

theorem loop_callback_nil_keeps_descriptor:
  "loop_callback r NilValue = Inr (r, True)
   \<and> loop_callback r (DescPointer (Some d)) = Inr (r\<lparr>ringDesc := d\<rparr>, True)
   \<and> (loop_callback r v = Inr (r', b) \<and> ringDesc r' \<noteq> ringDesc r
        \<longrightarrow> v = DescPointer (Some (ringDesc r')))"
  by (auto simp: loop_callback_def split: watch_value.splits option.splits)

theorem loop_callback_nil_keeps_descriptor_witness:
  "loop_callback ring_scenario NilValue = Inr (ring_scenario, True)
   \<and> loop_callback ring_scenario (DescPointer (Some (ringDesc ring_empty)))
       = Inr (ring_empty, True)
   \<and> ringDesc ring_empty \<noteq> ringDesc ring_scenario"
  using loop_callback_nil_keeps_descriptor
    [of ring_scenario "ringDesc ring_empty" "DescPointer (Some (ringDesc ring_empty))"
       ring_empty True]
  by (simp add: ring_empty_def ring_scenario_def scenario_tokens_def)

end
